theory Spec2Isabelle
  imports Complex_Main "HOL-Library.Log_Nat" "HOL-Library.Multiset" "HOL-Library.AList"
begin

section \<open>Double-precision arithmetic\<close>

text \<open>
  The estimator and the pass-rate evaluator compute with Python floats (IEEE 754 binary64).
  Every finite double is a rational number, so a double is modelled as a \<open>rat\<close>, and each
  arithmetic operation as the exact operation followed by rounding to the nearest double,
  ties to even (\<open>fl\<close>).  The grid of doubles around \<open>x\<close> has spacing \<open>2 ^ e\<close> with
  \<open>e = max (\<lfloor>log\<^sub>2 \<bar>x\<bar>\<rfloor> - 52) (-1074)\<close> (the second argument covers subnormals).
  Overflow to infinity is not modelled: every value computed by the program lies in
  \<open>[0, 100]\<close>.
\<close>

definition pow2 :: "int \<Rightarrow> rat" where
  "pow2 e = (if 0 \<le> e then 2 ^ nat e else 1 / 2 ^ nat (- e))"

definition round_half_even :: "rat \<Rightarrow> int" where
  "round_half_even x =
     (let f = \<lfloor>x\<rfloor>; d = x - of_int f
      in if d < 1 / 2 then f
         else if 1 / 2 < d then f + 1
         else if even f then f else f + 1)"

definition ilog2 :: "rat \<Rightarrow> int" where
  \<comment> \<open>\<open>\<lfloor>log\<^sub>2 x\<rfloor>\<close> for positive \<open>x\<close>, from the bit lengths of numerator and denominator\<close>
  "ilog2 x =
     (let e = bitlen (fst (quotient_of x)) - bitlen (snd (quotient_of x))
      in if pow2 e \<le> x then e else e - 1)"

definition fl :: "rat \<Rightarrow> rat" where
  "fl x =
     (if x = 0 then 0
      else let e = max (ilog2 \<bar>x\<bar> - 52) (- 1074)
           in sgn x * of_int (round_half_even (\<bar>x\<bar> / pow2 e)) * pow2 e)"

definition float_div :: "nat \<Rightarrow> nat \<Rightarrow> rat" where
  \<comment> \<open>Python's \<open>a / b\<close> on two integers with \<open>b \<noteq> 0\<close>: the correctly rounded quotient\<close>
  "float_div a b = fl (of_nat a / of_nat b)"

definition float_add :: "rat \<Rightarrow> rat \<Rightarrow> rat" where
  "float_add x y = fl (x + y)"

definition float_mul :: "rat \<Rightarrow> rat \<Rightarrow> rat" where
  "float_mul x y = fl (x * y)"

section \<open>Coefficient estimator\<close>

text \<open>
  A row is the list of the counts of one date, one per entity.  Counts are non-negative
  integers of unbounded size, so the total and the quotient \<open>blocks / total_blocks\<close> are
  those of Python integers.  The result of a loop that is left by \<open>break\<close> is the value of
  \<open>nc\<close> at that point.
\<close>

definition sort_values_desc :: "nat list \<Rightarrow> nat list" where
  \<comment> \<open>\<open>row.sort_values(ascending=False)\<close>, as the sequence of values\<close>
  "sort_values_desc row = rev (sort row)"

fun nc_loop :: "nat \<Rightarrow> nat list \<Rightarrow> int \<Rightarrow> rat \<Rightarrow> int" where
  "nc_loop total_blocks [] nc power_ratio = nc"
| "nc_loop total_blocks (blocks # rest) nc power_ratio =
     (let nc' = nc + 1;
          power_ratio' = float_add power_ratio (float_div blocks total_blocks)
      in if 1 / 2 < power_ratio' then nc' else nc_loop total_blocks rest nc' power_ratio')"

definition compute_nakamoto_coefficient :: "nat list \<Rightarrow> int" where
  "compute_nakamoto_coefficient row =
     (let total_blocks = sum_list row
      in if 0 < total_blocks then nc_loop total_blocks (sort_values_desc row) 0 0 else 0)"

definition compute_nakamoto_coefficients :: "nat list list \<Rightarrow> int list" where
  "compute_nakamoto_coefficients blocks_df = map compute_nakamoto_coefficient blocks_df"

definition exceeds_half :: "nat list \<Rightarrow> nat \<Rightarrow> bool" where
  \<comment> \<open>the exact running share of the \<open>k\<close> largest counts is strictly above one half\<close>
  "exceeds_half row k =
     (1 / 2 < (of_nat (sum_list (take k (sort_values_desc row))) :: rat) / of_nat (sum_list row))"

section \<open>Binomial test\<close>

text \<open>
  \<open>scipy.stats.binomtest(k, n, p=0.5, alternative).pvalue\<close> is library code.  The range
  search and the pass-rate evaluator take it as a parameter \<open>bt\<close>: \<open>bt alt k n\<close> is the
  p-value, a double.  With non-negative counts \<open>k \<le> n\<close> holds at every call and \<open>n\<close> is
  positive, so the library's argument checks never raise.

  \<open>binomtest_pvalue\<close> is the value the library approximates: the exact tail probability
  of the binomial distribution with success probability one half.
\<close>

datatype alternative = Alt_greater | Alt_less

type_synonym binomtest = "alternative \<Rightarrow> nat \<Rightarrow> nat \<Rightarrow> rat"

fun binomtest_pvalue :: binomtest where
  "binomtest_pvalue Alt_greater k n =
     of_nat (sum_list (map (\<lambda>i. n choose i) [k..<Suc n])) / 2 ^ n"
| "binomtest_pvalue Alt_less k n =
     of_nat (sum_list (map (\<lambda>i. n choose i) [0..<Suc k])) / 2 ^ n"

definition alpha_default :: rat where
  \<comment> \<open>the double written \<open>0.05\<close>\<close>
  "alpha_default = fl (1 / 20)"

section \<open>Confidence range search\<close>

datatype error = KeyError | IndexError | ZeroDivisionError | ValueError

definition nlargest_sum :: "int \<Rightarrow> nat list \<Rightarrow> nat" where
  \<comment> \<open>\<open>row.sort_values(ascending=False).nlargest(c).sum()\<close>; \<open>nlargest\<close> of a count
      \<open>c \<le> 0\<close> is empty, of a count beyond the row's length the whole row\<close>
  "nlargest_sum c row = sum_list (take (nat c) (sort_values_desc row))"

text \<open>
  The two \<open>while\<close> loops, on the variables they read and write.  \<open>None\<close> is a loop that
  never exits.
\<close>

partial_function (option) upper_loop ::
  "binomtest \<Rightarrow> rat \<Rightarrow> nat list \<Rightarrow> nat \<Rightarrow> int \<Rightarrow> nat \<Rightarrow> rat \<Rightarrow> (int \<times> nat \<times> rat) option" where
  "upper_loop bt alpha row total_blocks coeffp successes p =
     (if alpha < p
      then upper_loop bt alpha row total_blocks (coeffp + 1)
             (nlargest_sum (coeffp + 1) row)
             (bt Alt_greater (nlargest_sum (coeffp + 1) row) total_blocks)
      else Some (coeffp, successes, p))"

partial_function (option) lower_loop ::
  "binomtest \<Rightarrow> rat \<Rightarrow> nat list \<Rightarrow> nat \<Rightarrow> int \<Rightarrow> nat \<Rightarrow> rat \<Rightarrow> (int \<times> nat \<times> rat) option" where
  "lower_loop bt alpha row total_blocks coeffq successes q =
     (if alpha < q
      then lower_loop bt alpha row total_blocks (coeffq - 1)
             (nlargest_sum (coeffq - 1) row)
             (bt Alt_less (nlargest_sum (coeffq - 1) row) total_blocks)
      else Some (coeffq, successes, q))"

declare upper_loop.simps [code]
declare lower_loop.simps [code]

definition upper_search :: "binomtest \<Rightarrow> rat \<Rightarrow> nat list \<Rightarrow> nat \<Rightarrow> int \<Rightarrow> (int \<times> nat) option" where
  \<comment> \<open>lines 74 to 93: the result is \<open>coeffp\<close> and the value left in \<open>successes\<close>\<close>
  "upper_search bt alpha row total_blocks coeff =
     (let successes = nlargest_sum coeff row;
          p = bt Alt_greater successes total_blocks
      in if alpha < p
         then (case upper_loop bt alpha row total_blocks coeff successes p of
                 None \<Rightarrow> None
               | Some (coeffp, successes', p') \<Rightarrow> Some (coeffp - 1, successes'))
         else Some (coeff, successes))"

definition lower_search :: "binomtest \<Rightarrow> rat \<Rightarrow> nat list \<Rightarrow> nat \<Rightarrow> int \<Rightarrow> nat \<Rightarrow> int option" where
  \<comment> \<open>lines 94 to 111, entered with the current value of \<open>successes\<close>\<close>
  "lower_search bt alpha row total_blocks coeff successes =
     (let q = bt Alt_less successes total_blocks
      in if alpha < q
         then (case lower_loop bt alpha row total_blocks coeff successes q of
                 None \<Rightarrow> None
               | Some (coeffq, successes', q') \<Rightarrow> Some (coeffq + 1))
         else Some coeff)"

definition lower_initial_k :: "binomtest \<Rightarrow> rat \<Rightarrow> nat list \<Rightarrow> int \<Rightarrow> nat option" where
  \<comment> \<open>the \<open>k\<close> of the first \<open>less\<close> test (lines 94 to 99): the value of \<open>successes\<close> when the upper
      search is left\<close>
  "lower_initial_k bt alpha row coeff =
     map_option snd (upper_search bt alpha row (sum_list row) coeff)"

definition find_nc_range_date :: "binomtest \<Rightarrow> rat \<Rightarrow> nat list \<Rightarrow> int \<Rightarrow> (int \<times> int) option" where
  \<comment> \<open>one pass of the \<open>for\<close> loop: the pair \<open>(coeffq, coeffp)\<close> appended to \<open>lower\<close>, \<open>upper\<close>\<close>
  "find_nc_range_date bt alpha row coeff =
     (let total_blocks = sum_list row
      in if 0 < total_blocks
         then (case upper_search bt alpha row total_blocks coeff of
                 None \<Rightarrow> None
               | Some (coeffp, successes) \<Rightarrow>
                   (case lower_search bt alpha row total_blocks coeff successes of
                      None \<Rightarrow> None
                    | Some coeffq \<Rightarrow> Some (coeffq, coeffp)))
         else Some (coeff, coeff))"

text \<open>
  The table is the list of its rows in index order and the coefficient series the list of
  its values in the same order; a date of the table that the series lacks makes
  \<open>nc_df['nc'].loc[date]\<close> raise \<open>KeyError\<close>.
\<close>

fun find_nc_range :: "binomtest \<Rightarrow> rat \<Rightarrow> nat list list \<Rightarrow> int list \<Rightarrow> (error + (int \<times> int) list) option" where
  "find_nc_range bt alpha [] nc_df = Some (Inr [])"
| "find_nc_range bt alpha (row # blocks_df) [] = Some (Inl KeyError)"
| "find_nc_range bt alpha (row # blocks_df) (coeff # nc_df) =
     (case find_nc_range_date bt alpha row coeff of
        None \<Rightarrow> None
      | Some r \<Rightarrow>
          (case find_nc_range bt alpha blocks_df nc_df of
             None \<Rightarrow> None
           | Some (Inl e) \<Rightarrow> Some (Inl e)
           | Some (Inr rs) \<Rightarrow> Some (Inr (r # rs))))"

section \<open>Pass-rate evaluator\<close>

fun binom_p_loop :: "binomtest \<Rightarrow> rat \<Rightarrow> nat list list \<Rightarrow> int list \<Rightarrow> nat \<Rightarrow> nat \<Rightarrow> error + (nat \<times> nat)" where
  "binom_p_loop bt alpha [] nc_df passes total' = Inr (passes, total')"
| "binom_p_loop bt alpha (row # blocks_df) nc_df passes total' =
     (let num = sum_list row
      in if num \<noteq> 0
         then (case nc_df of
                 [] \<Rightarrow> Inl IndexError
               | coeff # _ \<Rightarrow>
                   (let successes = nlargest_sum coeff row;
                        p = bt Alt_greater successes num
                    in binom_p_loop bt alpha blocks_df (drop 1 nc_df)
                         (if p < alpha then passes + 1 else passes) (total' + 1)))
         else binom_p_loop bt alpha blocks_df (drop 1 nc_df) passes total')"

definition binom_p :: "binomtest \<Rightarrow> rat \<Rightarrow> nat list list \<Rightarrow> int list \<Rightarrow> error + rat" where
  "binom_p bt alpha blocks_df nc_df =
     (case binom_p_loop bt alpha blocks_df nc_df 0 0 of
        Inl e \<Rightarrow> Inl e
      | Inr (passes, total') \<Rightarrow>
          if total' = 0 then Inl ZeroDivisionError
          else Inr (float_mul (float_div passes total') 100))"

definition dates_tested :: "nat list list \<Rightarrow> nat" where
  \<comment> \<open>the number of dates with nonzero total\<close>
  "dates_tested blocks_df = length (filter (\<lambda>row. sum_list row \<noteq> 0) blocks_df)"

definition dates_passed :: "binomtest \<Rightarrow> rat \<Rightarrow> nat list list \<Rightarrow> int list \<Rightarrow> nat" where
  \<comment> \<open>the number of dates with nonzero total whose \<open>greater\<close> p-value is below \<open>alpha\<close>\<close>
  "dates_passed bt alpha blocks_df nc_df =
     length (filter (\<lambda>(row, coeff). sum_list row \<noteq> 0 \<and>
                       bt Alt_greater (nlargest_sum coeff row) (sum_list row) < alpha)
               (zip blocks_df nc_df))"

section \<open>Temporal aggregator\<close>

text \<open>
  A data frame: the index (dates), the column labels and the rows of cells in index order.
  In a well-formed frame there is one row per date and one cell per column in every row.
\<close>

record ('d, 'c, 'v) frame =
  index :: "'d list"
  columns :: "'c list"
  data :: "'v list list"

definition wf_frame :: "('d, 'c, 'v) frame \<Rightarrow> bool" where
  "wf_frame df =
     (length (data df) = length (index df) \<and>
      list_all (\<lambda>row. length row = length (columns df)) (data df))"

definition to_dict_list :: "('d, 'c, 'v) frame \<Rightarrow> ('d \<times> 'v list) list" where
  \<comment> \<open>\<open>blocks_df.T.to_dict('list')\<close>: a dictionary from date to row, in insertion order;
      a date that occurs again overwrites its earlier value\<close>
  "to_dict_list df = fold (\<lambda>(k, v) daily. AList.update k v daily) (zip (index df) (data df)) []"

definition py_slice :: "'a list \<Rightarrow> int \<Rightarrow> int \<Rightarrow> 'a list" where
  \<comment> \<open>\<open>xs[start:stop]\<close>: a negative bound counts from the end, and both bounds are clipped
      to the list\<close>
  "py_slice xs start stop =
     (let n = int (length xs);
          lo = (if start < 0 then max 0 (start + n) else min start n);
          hi = (if stop < 0 then max 0 (stop + n) else min stop n)
      in take (nat (hi - lo)) (drop (nat lo) xs))"

definition zip_star :: "'a list list \<Rightarrow> 'a list list" where
  \<comment> \<open>\<open>zip(*rows)\<close>: the columns of \<open>rows\<close>, as many as the shortest row has cells;
      no columns at all when there is no row\<close>
  "zip_star rows =
     (if rows = [] then []
      else map (\<lambda>c. map (\<lambda>row. row ! c) rows) [0..<Min (set (map length rows))])"

definition combined_blocks :: "nat list list \<Rightarrow> int \<Rightarrow> nat \<Rightarrow> nat list" where
  \<comment> \<open>the body of the \<open>while\<close> loop at position \<open>i\<close>\<close>
  "combined_blocks lister num i =
     (let step = num div 2
      in map sum_list (zip_star (py_slice lister (int i - step) (int i + (num - step)))))"

definition DataFrame :: "'v list list \<Rightarrow> 'd list \<Rightarrow> 'c list \<Rightarrow> error + ('d, 'c, 'v option) frame" where
  \<comment> \<open>\<open>pd.DataFrame(data, index, columns)\<close> on a list of rows as long as the index: rows
      shorter than the longest one are completed with missing values, and the longest row
      must have one cell per column\<close>
  "DataFrame rows idx cols =
     (if rows = [] then Inr \<lparr>index = idx, columns = cols, data = []\<rparr>
      else if Max (set (map length rows)) \<noteq> length cols then Inl ValueError
      else Inr \<lparr>index = idx, columns = cols,
                data = map (\<lambda>row. map Some row @ replicate (length cols - length row) None) rows\<rparr>)"

function granularity_loop :: "nat list list \<Rightarrow> int \<Rightarrow> nat \<Rightarrow> nat list list \<Rightarrow> nat list list" where
  \<comment> \<open>\<open>while i <= len(lister)-1\<close>, from the current \<open>i\<close> and \<open>result\<close>\<close>
  "granularity_loop lister num i result =
     (if int i \<le> int (length lister) - 1
      then granularity_loop lister num (i + 1) (result @ [combined_blocks lister num i])
      else result)"
  by pat_completeness auto
termination
  by (relation "measure (\<lambda>(lister, num, i, result). length lister - i)") auto

declare granularity_loop.simps [simp del]

definition granularity :: "('d::linorder, 'c, nat) frame \<Rightarrow> int \<Rightarrow> error + ('d, 'c, nat option) frame" where
  "granularity blocks_df num =
     (let daily = to_dict_list blocks_df;
          items = sort_key fst daily;
          lister = map snd items;
          dates = map fst items;
          result = granularity_loop lister num 0 []
      in DataFrame result dates (columns blocks_df))"

text \<open>
  The window of the specification: the positions of the half-open range
  \<open>[i - step, i + (num - step))\<close>, a negative start counted from the end of the sequence,
  and the column-wise sum of the rows at these positions.
\<close>

definition window_positions :: "nat \<Rightarrow> int \<Rightarrow> nat \<Rightarrow> nat list" where
  "window_positions n num i =
     (let step = num div 2;
          start = (if int i - step < 0 then int n + (int i - step) else int i - step);
          stop = int i + (num - step)
      in filter (\<lambda>j. start \<le> int j \<and> int j < stop) [0..<n])"

definition window_sum :: "nat list list \<Rightarrow> nat \<Rightarrow> int \<Rightarrow> nat \<Rightarrow> nat list" where
  "window_sum rows width num i =
     map (\<lambda>c. sum_list (map (\<lambda>j. rows ! j ! c) (window_positions (length rows) num i))) [0..<width]"

definition aggregated_row :: "nat list list \<Rightarrow> nat \<Rightarrow> int \<Rightarrow> nat \<Rightarrow> nat option list" where
  \<comment> \<open>the row stored for position \<open>i\<close>: the window's sum, or missing values in every
      column when the window holds no row\<close>
  "aggregated_row rows w num i =
     (if window_positions (length rows) num i = [] then replicate w None
      else map Some (window_sum rows w num i))"

section \<open>Properties of the estimator\<close>

lemma nc_loop_ge: "nc \<le> nc_loop t xs nc pr"
proof (induction xs arbitrary: nc pr)
  case Nil
  show ?case by simp
next
  case (Cons b bs)
  have "nc + 1 \<le> nc_loop t bs (nc + 1) pr'" for pr'
    by (rule Cons.IH)
  then have "nc \<le> nc_loop t bs (nc + 1) pr'" for pr'
    by (rule order_trans [rotated]) simp
  then show ?case by (simp add: Let_def)
qed

lemma nc_loop_gt: "xs \<noteq> [] \<Longrightarrow> nc < nc_loop t xs nc pr"
proof (cases xs)
  case Nil
  assume "xs \<noteq> []"
  with Nil show ?thesis by simp
next
  case (Cons b bs)
  have "nc + 1 \<le> nc_loop t bs (nc + 1) pr'" for pr'
    by (rule nc_loop_ge)
  then have "nc < nc_loop t bs (nc + 1) pr'" for pr'
    by (rule less_le_trans [rotated]) simp
  with Cons show ?thesis
    by (simp add: Let_def)
qed

lemma sort_values_desc_Nil: "sort_values_desc row = [] \<longleftrightarrow> row = []"
  unfolding sort_values_desc_def by (metis length_0_conv length_sort length_rev)

text \<open>
  Claim C3.  For every row of non-negative counts the estimator returns 0 exactly when the
  row's total is 0.
\<close>

theorem coefficient_zero_iff_total_zero:
  "compute_nakamoto_coefficient row = 0 \<longleftrightarrow> sum_list row = 0"
proof (cases "sum_list row = 0")
  case True
  then show ?thesis
    unfolding compute_nakamoto_coefficient_def by (simp del: sum_list_eq_0_iff)
next
  case False
  then have "row \<noteq> []" by auto
  then have "sort_values_desc row \<noteq> []" by (simp add: sort_values_desc_Nil)
  then have "0 < nc_loop (sum_list row) (sort_values_desc row) 0 0"
    by (rule nc_loop_gt)
  with False show ?thesis
    unfolding compute_nakamoto_coefficient_def by (simp add: Let_def del: sum_list_eq_0_iff)
qed

theorem coefficient_zero_iff_total_zero_witness:
  "compute_nakamoto_coefficient [0, 0, 0] = 0 \<and> sum_list [0, 0, 0 :: nat] = 0 \<and>
   compute_nakamoto_coefficient [100] \<noteq> 0"
  using coefficient_zero_iff_total_zero [of "[0, 0, 0]"] coefficient_zero_iff_total_zero [of "[100]"]
  by simp

lemma sort_values_desc_mset: "mset row = mset row' \<Longrightarrow> sort_values_desc row = sort_values_desc row'"
  unfolding sort_values_desc_def
  by (simp add: properties_for_sort)

lemma sum_list_mset_eq: "mset row = mset row' \<Longrightarrow> sum_list row = sum_list (row' :: nat list)"
  by (metis sum_mset_sum_list)

text \<open>
  Claim C10.  The estimator returns the same coefficient on every permutation of a row:
  two rows with the same multiset of counts have the same coefficient.
\<close>

theorem coefficient_permutation_invariant:
  assumes "mset row = mset row'"
  shows "compute_nakamoto_coefficient row = compute_nakamoto_coefficient row'"
proof -
  have a: "sort_values_desc row = sort_values_desc row'"
    using assms by (rule sort_values_desc_mset)
  have b: "sum_list row = sum_list row'"
    using assms by (rule sum_list_mset_eq)
  show ?thesis
    by (simp only: compute_nakamoto_coefficient_def a b)
qed

theorem coefficient_permutation_invariant_witness:
  "mset [1, 3, 2 :: nat] = mset [3, 2, 1] \<and> compute_nakamoto_coefficient [1, 3, 2] = compute_nakamoto_coefficient [3, 2, 1]"
  using coefficient_permutation_invariant [of "[1, 3, 2]" "[3, 2, 1]"] by simp

text \<open>
  Claim C2.  The claim reads the coefficient as the least \<open>k\<close> whose exact running share
  exceeds one half.  The loop adds rounded quotients instead, and on the row
  \<open>[4, 3, 3, 3, 3, 3, 3, 3, 1]\<close> (total 26) the four doubles \<open>4/26 + 3/26 + 3/26 + 3/26\<close>
  add up to \<open>0.5000000000000001\<close>: the estimator stops at 4, although the four largest
  counts hold exactly one half of the total and the least \<open>k\<close> of the claim is 5.
\<close>

theorem float_share_crosses_early:
  "compute_nakamoto_coefficient [4, 3, 3, 3, 3, 3, 3, 3, 1] = 4 \<and>
   \<not> exceeds_half [4, 3, 3, 3, 3, 3, 3, 3, 1] 4 \<and> exceeds_half [4, 3, 3, 3, 3, 3, 3, 3, 1] 5"
  by code_simp

lemma coefficient_of_five_equal_counts: "compute_nakamoto_coefficient [10, 10, 10, 10, 10] = 3"
  by code_simp

section \<open>Properties of the range search\<close>

lemma upper_loop_gt:
  assumes "upper_loop bt alpha row n c s p = Some r"
  shows "c \<le> fst r \<and> (alpha < p \<longrightarrow> c < fst r)"
  using assms
proof (rule upper_loop.raw_induct
    [where P = "\<lambda>bt alpha row n c s p r. c \<le> fst r \<and> (alpha < p \<longrightarrow> c < fst r)", rotated])
  fix f :: "binomtest \<Rightarrow> rat \<Rightarrow> nat list \<Rightarrow> nat \<Rightarrow> int \<Rightarrow> nat \<Rightarrow> rat \<Rightarrow> (int \<times> nat \<times> rat) option"
  fix bt alpha row n c s p r
  assume IH: "\<And>bt alpha row n c s p r. f bt alpha row n c s p = Some r \<Longrightarrow> c \<le> fst r \<and> (alpha < p \<longrightarrow> c < fst r)"
  assume step: "(if alpha < p
        then f bt alpha row n (c + 1) (nlargest_sum (c + 1) row)
              (bt Alt_greater (nlargest_sum (c + 1) row) n)
        else Some (c, s, p)) = Some r"
  show "c \<le> fst r \<and> (alpha < p \<longrightarrow> c < fst r)"
  proof (cases "alpha < p")
    case True
    with step have "f bt alpha row n (c + 1) (nlargest_sum (c + 1) row) (bt Alt_greater (nlargest_sum (c + 1) row) n) = Some r"
      by simp
    from IH [OF this] have "c + 1 \<le> fst r" by simp
    then show ?thesis by simp
  next
    case False
    with step have "r = (c, s, p)" by simp
    with False show ?thesis by simp
  qed
qed

lemma lower_loop_lt:
  assumes "lower_loop bt alpha row n c s q = Some r"
  shows "fst r \<le> c \<and> (alpha < q \<longrightarrow> fst r < c)"
  using assms
proof (rule lower_loop.raw_induct
    [where P = "\<lambda>bt alpha row n c s q r. fst r \<le> c \<and> (alpha < q \<longrightarrow> fst r < c)", rotated])
  fix f :: "binomtest \<Rightarrow> rat \<Rightarrow> nat list \<Rightarrow> nat \<Rightarrow> int \<Rightarrow> nat \<Rightarrow> rat \<Rightarrow> (int \<times> nat \<times> rat) option"
  fix bt alpha row n c s q r
  assume IH: "\<And>bt alpha row n c s q r. f bt alpha row n c s q = Some r \<Longrightarrow> fst r \<le> c \<and> (alpha < q \<longrightarrow> fst r < c)"
  assume step: "(if alpha < q
        then f bt alpha row n (c - 1) (nlargest_sum (c - 1) row)
              (bt Alt_less (nlargest_sum (c - 1) row) n)
        else Some (c, s, q)) = Some r"
  show "fst r \<le> c \<and> (alpha < q \<longrightarrow> fst r < c)"
  proof (cases "alpha < q")
    case True
    with step have "f bt alpha row n (c - 1) (nlargest_sum (c - 1) row) (bt Alt_less (nlargest_sum (c - 1) row) n) = Some r"
      by simp
    from IH [OF this] have "fst r \<le> c - 1" by simp
    then show ?thesis by simp
  next
    case False
    with step have "r = (c, s, q)" by simp
    with False show ?thesis by simp
  qed
qed

lemma upper_search_ge:
  assumes "upper_search bt alpha row n coeff = Some (coeffp, s)"
  shows "coeff \<le> coeffp"
proof (cases "alpha < bt Alt_greater (nlargest_sum coeff row) n")
  case True
  with assms obtain r where
    r: "upper_loop bt alpha row n coeff (nlargest_sum coeff row) (bt Alt_greater (nlargest_sum coeff row) n) = Some r"
    and c: "coeffp = fst r - 1"
    by (auto simp: upper_search_def Let_def split: option.splits)
  from upper_loop_gt [OF r] True have "coeff < fst r" by simp
  with c show ?thesis by simp
next
  case False
  with assms show ?thesis by (simp add: upper_search_def Let_def)
qed

lemma lower_search_le:
  assumes "lower_search bt alpha row n coeff s = Some coeffq"
  shows "coeffq \<le> coeff"
proof (cases "alpha < bt Alt_less s n")
  case True
  with assms obtain r where
    r: "lower_loop bt alpha row n coeff s (bt Alt_less s n) = Some r"
    and c: "coeffq = fst r + 1"
    by (auto simp: lower_search_def Let_def split: option.splits)
  from lower_loop_lt [OF r] True have "fst r < coeff" by simp
  with c show ?thesis by simp
next
  case False
  with assms show ?thesis by (simp add: lower_search_def Let_def)
qed

lemma find_nc_range_date_bounds:
  assumes "find_nc_range_date bt alpha row coeff = Some (lo, hi)"
  shows "lo \<le> coeff \<and> coeff \<le> hi"
proof (cases "0 < sum_list row")
  case True
  with assms obtain s where
    u: "upper_search bt alpha row (sum_list row) coeff = Some (hi, s)"
    and l: "lower_search bt alpha row (sum_list row) coeff s = Some lo"
    by (auto simp: find_nc_range_date_def Let_def split: option.splits simp del: sum_list_eq_0_iff)
  from upper_search_ge [OF u] lower_search_le [OF l] show ?thesis by simp
next
  case False
  with assms show ?thesis by (simp add: find_nc_range_date_def Let_def del: sum_list_eq_0_iff)
qed

lemma find_nc_range_bounds:
  "find_nc_range bt alpha blocks_df nc_df = Some (Inr rs) \<Longrightarrow>
   length rs = length blocks_df \<and> length blocks_df \<le> length nc_df \<and>
   (\<forall>i < length blocks_df. fst (rs ! i) \<le> nc_df ! i \<and> nc_df ! i \<le> snd (rs ! i))"
proof (induction bt alpha blocks_df nc_df arbitrary: rs rule: find_nc_range.induct)
  case (1 bt alpha nc_df)
  then show ?case by simp
next
  case (2 bt alpha row blocks_df)
  then show ?case by simp
next
  case (3 bt alpha row blocks_df coeff nc_df)
  from "3.prems" obtain r rs' where
    d: "find_nc_range_date bt alpha row coeff = Some r"
    and t: "find_nc_range bt alpha blocks_df nc_df = Some (Inr rs')"
    and rs: "rs = r # rs'"
    by (auto split: option.splits sum.splits)
  from d have b: "fst r \<le> coeff \<and> coeff \<le> snd r"
    by (cases r) (simp add: find_nc_range_date_bounds)
  from "3.IH" [OF d t] have ih: "length rs' = length blocks_df \<and> length blocks_df \<le> length nc_df \<and>
   (\<forall>i < length blocks_df. fst (rs' ! i) \<le> nc_df ! i \<and> nc_df ! i \<le> snd (rs' ! i))" .
  show ?case
  proof (intro conjI allI impI)
    show "length rs = length (row # blocks_df)" using ih rs by simp
    show "length (row # blocks_df) \<le> length (coeff # nc_df)" using ih by simp
  next
    fix i assume "i < length (row # blocks_df)"
    then show "fst (rs ! i) \<le> (coeff # nc_df) ! i" using ih b rs by (cases i) auto
  next
    fix i assume "i < length (row # blocks_df)"
    then show "(coeff # nc_df) ! i \<le> snd (rs ! i)" using ih b rs by (cases i) auto
  qed
qed

text \<open>
  Claim C1.  When the coefficient series comes from \<open>compute_nakamoto_coefficients\<close> and
  the range search on the same table returns, every date's pair satisfies
  \<open>lower \<le> coefficient \<le> upper\<close>, whatever p-values the binomial test yields.
\<close>

theorem range_brackets_coefficient:
  assumes "find_nc_range bt alpha blocks_df (compute_nakamoto_coefficients blocks_df) = Some (Inr rs)"
    and "i < length blocks_df"
  shows "fst (rs ! i) \<le> compute_nakamoto_coefficients blocks_df ! i \<and>
         compute_nakamoto_coefficients blocks_df ! i \<le> snd (rs ! i)"
  using find_nc_range_bounds [OF assms(1)] assms(2) by simp

lemma find_nc_range_example:
  "find_nc_range binomtest_pvalue alpha_default [[3, 2]] (compute_nakamoto_coefficients [[3, 2]]) = Some (Inr [(1, 1)])"
  by code_simp

theorem range_brackets_coefficient_witness:
  "find_nc_range binomtest_pvalue alpha_default [[3, 2]] (compute_nakamoto_coefficients [[3, 2]]) = Some (Inr [(1, 1)]) \<and>
   (0::nat) < length [[3, 2 :: nat]] \<and>
   fst ([(1, 1)] ! 0) \<le> compute_nakamoto_coefficients [[3, 2]] ! 0 \<and>
   compute_nakamoto_coefficients [[3, 2]] ! 0 \<le> snd ([(1 :: int, 1 :: int)] ! 0)"
  using range_brackets_coefficient [OF find_nc_range_example, of 0] find_nc_range_example by simp

lemma sum_list_sort_values_desc: "sum_list (sort_values_desc row) = sum_list row"
proof -
  have "sum_list (sort row) = sum_list row"
    by (metis mset_sort sum_mset_sum_list)
  then show ?thesis by (simp add: sort_values_desc_def sum_list_rev)
qed

lemma nlargest_sum_all: "int (length row) \<le> c \<Longrightarrow> nlargest_sum c row = sum_list row"
proof -
  assume "int (length row) \<le> c"
  then have "length (sort_values_desc row) \<le> nat c"
    by (simp add: sort_values_desc_def)
  then show ?thesis
    by (simp add: nlargest_sum_def sum_list_sort_values_desc)
qed

lemma upper_loop_never_exits:
  assumes "upper_loop bt alpha row n c s p = Some r"
  shows "\<not> (alpha < bt Alt_greater (sum_list row) n \<and> int (length row) \<le> c \<and>
            p = bt Alt_greater (sum_list row) n)"
  using assms
proof (rule upper_loop.raw_induct
    [where P = "\<lambda>bt alpha row n c s p r.
        \<not> (alpha < bt Alt_greater (sum_list row) n \<and> int (length row) \<le> c \<and>
           p = bt Alt_greater (sum_list row) n)", rotated])
  fix f :: "binomtest \<Rightarrow> rat \<Rightarrow> nat list \<Rightarrow> nat \<Rightarrow> int \<Rightarrow> nat \<Rightarrow> rat \<Rightarrow> (int \<times> nat \<times> rat) option"
  fix bt alpha row n c s p r
  assume IH: "\<And>bt alpha row n c s p r. f bt alpha row n c s p = Some r \<Longrightarrow>
     \<not> (alpha < bt Alt_greater (sum_list row) n \<and> int (length row) \<le> c \<and>
        p = bt Alt_greater (sum_list row) n)"
  assume step: "(if alpha < p
        then f bt alpha row n (c + 1) (nlargest_sum (c + 1) row)
              (bt Alt_greater (nlargest_sum (c + 1) row) n)
        else Some (c, s, p)) = Some r"
  show "\<not> (alpha < bt Alt_greater (sum_list row) n \<and> int (length row) \<le> c \<and>
           p = bt Alt_greater (sum_list row) n)"
  proof
    assume inv: "alpha < bt Alt_greater (sum_list row) n \<and> int (length row) \<le> c \<and>
           p = bt Alt_greater (sum_list row) n"
    then have all: "nlargest_sum (c + 1) row = sum_list row"
      by (simp add: nlargest_sum_all)
    from inv have "alpha < p" by simp
    with step have "f bt alpha row n (c + 1) (sum_list row) (bt Alt_greater (sum_list row) n) = Some r"
      by (simp only: all if_True)
    from IH [OF this] inv show False by simp
  qed
qed

lemma upper_loop_diverges:
  assumes "alpha < bt Alt_greater (sum_list row) n" and "int (length row) \<le> c"
  shows "upper_loop bt alpha row n c s (bt Alt_greater (sum_list row) n) = None"
proof (cases "upper_loop bt alpha row n c s (bt Alt_greater (sum_list row) n)")
  case None
  then show ?thesis .
next
  case (Some r)
  from upper_loop_never_exits [OF Some] assms show ?thesis by simp
qed

text \<open>
  Claim C4.  The claim asks that both loops exit on every input.  Once the candidate has
  passed the number of entities, \<open>successes\<close> stays at the total and the p-value no longer
  changes, so a date whose p-value at \<open>k = n\<close> is above \<open>alpha\<close> keeps the upper loop running
  for ever.  A date with a single block is such a date: the p-value is one half.
\<close>

theorem range_search_loops_forever:
  "find_nc_range binomtest_pvalue alpha_default [[1]] (compute_nakamoto_coefficients [[1]]) = None"
proof -
  have nc: "compute_nakamoto_coefficients [[1]] = [1]" by code_simp
  have s: "nlargest_sum 1 [1] = sum_list [1]"
    by (rule nlargest_sum_all) simp
  have lt: "alpha_default < binomtest_pvalue Alt_greater (sum_list [1]) (sum_list [1])"
    by code_simp
  have pos: "0 < sum_list [1 :: nat]" by simp
  have "upper_loop binomtest_pvalue alpha_default [1] (sum_list [1]) 1 (sum_list [1])
          (binomtest_pvalue Alt_greater (sum_list [1]) (sum_list [1])) = None"
    using lt by (rule upper_loop_diverges) simp
  then have "upper_search binomtest_pvalue alpha_default [1] (sum_list [1]) 1 = None"
    unfolding upper_search_def Let_def s using lt by (simp only: if_True option.case)
  then have "find_nc_range_date binomtest_pvalue alpha_default [1] 1 = None"
    unfolding find_nc_range_date_def Let_def using pos by (simp only: if_True option.case)
  then show ?thesis
    by (simp only: nc find_nc_range.simps option.case)
qed

text \<open>
  Claim C5.  The claim has the first \<open>less\<close> test run on the point estimate's successes.
  The variable \<open>successes\<close> is overwritten by the upper loop and not computed again: on
  the row \<open>[3, 2]\<close> the point estimate is 1 with 3 successes, the upper loop runs once and
  leaves 5, and the first \<open>less\<close> test is run with \<open>k = 5\<close>.
\<close>

theorem lower_search_starts_from_upper_successes:
  "lower_initial_k binomtest_pvalue alpha_default [3, 2] (compute_nakamoto_coefficient [3, 2]) = Some 5 \<and>
   nlargest_sum (compute_nakamoto_coefficient [3, 2]) [3, 2] = 3"
  by code_simp

section \<open>Properties of rounding\<close>

lemma pow2_powi: "pow2 e = power_int 2 e"
  by (simp add: pow2_def power_int_def power_one_over inverse_eq_divide)

lemma pow2_pos: "0 < pow2 e"
  by (simp add: pow2_powi)

lemma pow2_nat: "0 \<le> e \<Longrightarrow> pow2 e = of_int (2 ^ nat e)"
  by (simp add: pow2_def)

lemma ilog2_le:
  assumes "0 < x"
  shows "pow2 (ilog2 x) \<le> x"
proof -
  obtain a b where q: "quotient_of x = (a, b)" by (cases "quotient_of x")
  then have b: "0 < b" by (rule quotient_of_denom_pos)
  from q have x: "x = of_int a / of_int b" by (rule quotient_of_div)
  with assms b have a: "0 < a" by (simp add: zero_less_divide_iff)
  define e where "e = bitlen a - bitlen b"
  show ?thesis
  proof (cases "pow2 e \<le> x")
    case True
    then show ?thesis by (simp add: ilog2_def q e_def)
  next
    case False
    then have i: "ilog2 x = e - 1" by (simp add: ilog2_def q e_def)
    from bitlen_bounds [OF a] have "(2::int) ^ nat (bitlen a - 1) \<le> a" by simp
    then have "(of_int (2 ^ nat (bitlen a - 1)) :: rat) \<le> of_int a"
      by (simp only: of_int_le_iff)
    moreover have "1 \<le> bitlen a" using a by (simp add: bitlen_alt_def)
    ultimately have la: "pow2 (bitlen a - 1) \<le> of_int a"
      by (simp add: pow2_nat)
    from bitlen_bounds [OF b] have "b < 2 ^ nat (bitlen b)" by simp
    then have "(of_int b :: rat) < of_int (2 ^ nat (bitlen b))"
      by (simp only: of_int_less_iff)
    moreover have "0 \<le> bitlen b" by (rule bitlen_nonneg)
    ultimately have lb: "of_int b \<le> pow2 (bitlen b)"
      by (simp add: pow2_nat)
    have "pow2 (e - 1) = pow2 (bitlen a - 1) / pow2 (bitlen b)"
      unfolding pow2_powi e_def
      using power_int_diff [of "2::rat" "bitlen a - 1" "bitlen b"] by (simp add: algebra_simps)
    also have "\<dots> \<le> of_int a / of_int b"
      using la lb a b by (intro frac_le) (simp_all add: less_imp_le [OF pow2_pos])
    finally have "pow2 (e - 1) \<le> x" by (simp only: x)
    then show ?thesis by (simp only: i)
  qed
qed

lemma round_half_even_le: "x \<le> of_int N \<Longrightarrow> round_half_even x \<le> N"
proof -
  assume le: "x \<le> of_int N"
  then have f: "\<lfloor>x\<rfloor> \<le> N" by (simp add: floor_le_iff) 
  show ?thesis
  proof (cases "\<lfloor>x\<rfloor> = N")
    case True
    with le have "x - of_int \<lfloor>x\<rfloor> \<le> 0" by simp
    then have "x - of_int \<lfloor>x\<rfloor> < 1 / 2" by simp
    with True show ?thesis by (simp add: round_half_even_def Let_def)
  next
    case False
    with f have "\<lfloor>x\<rfloor> + 1 \<le> N" by simp
    then show ?thesis by (simp add: round_half_even_def Let_def)
  qed
qed

lemma round_half_even_nonneg: "0 \<le> x \<Longrightarrow> 0 \<le> round_half_even x"
proof -
  assume "0 \<le> x"
  then have "0 \<le> \<lfloor>x\<rfloor>" by simp
  then show ?thesis by (simp add: round_half_even_def Let_def)
qed

lemma fl_nonneg: "0 \<le> x \<Longrightarrow> 0 \<le> fl x"
proof (cases "x = 0")
  case True
  then show ?thesis by (simp add: fl_def)
next
  case False
  assume "0 \<le> x"
  with False have x: "0 < x" by simp
  define e where "e = max (ilog2 \<bar>x\<bar> - 52) (- 1074)"
  have "0 \<le> \<bar>x\<bar> / pow2 e" using pow2_pos [of e] by simp
  then have "0 \<le> round_half_even (\<bar>x\<bar> / pow2 e)" by (rule round_half_even_nonneg)
  then have "0 \<le> (of_int (round_half_even (\<bar>x\<bar> / pow2 e)) :: rat) * pow2 e"
    using pow2_pos [of e] by simp
  with x False show ?thesis by (simp add: fl_def Let_def e_def)
qed

lemma fl_le_nat:
  assumes "0 \<le> x" and "x \<le> of_nat K" and "K < 2 ^ 53"
  shows "fl x \<le> of_nat K"
proof (cases "x = 0")
  case True
  then show ?thesis by (simp add: fl_def)
next
  case False
  with assms have x: "0 < x" by simp
  define e where "e = max (ilog2 \<bar>x\<bar> - 52) (- 1074)"
  have "ilog2 x \<le> 52"
  proof (rule ccontr)
    assume "\<not> ilog2 x \<le> 52"
    then have "53 \<le> ilog2 x" by simp
    then have "power_int (2::rat) 53 \<le> power_int 2 (ilog2 x)"
      by (intro power_int_increasing) simp_all
    also have "\<dots> \<le> x" using ilog2_le [OF x] by (simp add: pow2_powi)
    also have "\<dots> \<le> of_nat K" by (rule assms(2))
    finally have "(2::rat) ^ 53 \<le> of_nat K" by simp
    then have "(of_nat (2 ^ 53) :: rat) \<le> of_nat K" by simp
    then have "(2::nat) ^ 53 \<le> K" by (simp only: of_nat_le_iff)
    with assms(3) show False by simp
  qed
  with x have e: "e \<le> 0" by (simp add: e_def)
  define m where "m = nat (- e)"
  have p: "pow2 e = 1 / 2 ^ m"
    using e by (cases "e = 0") (simp_all add: pow2_def m_def)
  have "\<bar>x\<bar> / pow2 e = x * 2 ^ m" using x by (simp add: p)
  also have "\<dots> \<le> of_nat K * 2 ^ m" using assms(2) by simp
  also have "\<dots> = of_int (int K * 2 ^ m)" by simp
  finally have "round_half_even (\<bar>x\<bar> / pow2 e) \<le> int K * 2 ^ m"
    by (rule round_half_even_le)
  then have "(of_int (round_half_even (\<bar>x\<bar> / pow2 e)) :: rat) \<le> of_int (int K * 2 ^ m)"
    by (simp only: of_int_le_iff)
  then have "(of_int (round_half_even (\<bar>x\<bar> / pow2 e)) :: rat) * pow2 e \<le> of_int (int K * 2 ^ m) * pow2 e"
    using pow2_pos [of e] by (simp only: mult_le_cancel_right_pos)
  also have "\<dots> = of_nat K" by (simp add: p)
  finally show ?thesis using x False by (simp add: fl_def Let_def e_def)
qed

section \<open>Properties of the pass-rate evaluator\<close>

lemma dates_tested_Cons:
  "dates_tested (row # blocks_df) = (if sum_list row \<noteq> 0 then 1 else 0) + dates_tested blocks_df"
  by (simp add: dates_tested_def del: sum_list_eq_0_iff)

lemma dates_passed_Cons:
  "dates_passed bt alpha (row # blocks_df) (coeff # rest) =
      (if sum_list row \<noteq> 0 \<and> bt Alt_greater (nlargest_sum coeff row) (sum_list row) < alpha
       then 1 else 0)
      + dates_passed bt alpha blocks_df rest"
  by (simp add: dates_passed_def del: sum_list_eq_0_iff)

lemma binom_p_loop_counts:
  "length blocks_df \<le> length nc_df \<Longrightarrow>
   binom_p_loop bt alpha blocks_df nc_df passes total' =
     Inr (passes + dates_passed bt alpha blocks_df nc_df, total' + dates_tested blocks_df)"
proof (induction blocks_df arbitrary: nc_df passes total')
  case Nil
  show ?case by (simp add: dates_passed_def dates_tested_def)
next
  case (Cons row blocks_df)
  from Cons.prems obtain coeff rest where nc: "nc_df = coeff # rest"
    by (cases nc_df) auto
  with Cons.prems have len: "length blocks_df \<le> length rest" by simp
  show ?case
    unfolding nc dates_tested_Cons dates_passed_Cons
    by (simp add: Cons.IH [OF len] Let_def del: sum_list_eq_0_iff)
qed

lemma dates_passed_le_tested: "dates_passed bt alpha blocks_df nc_df \<le> dates_tested blocks_df"
proof (induction blocks_df arbitrary: nc_df)
  case Nil
  show ?case by (simp add: dates_passed_def)
next
  case (Cons row blocks_df)
  show ?case
  proof (cases nc_df)
    case Nil
    then show ?thesis by (simp add: dates_passed_def)
  next
    case (Cons coeff rest)
    have "dates_passed bt alpha blocks_df rest \<le> dates_tested blocks_df"
      by (rule Cons.IH)
    then show ?thesis
      unfolding Cons dates_tested_Cons dates_passed_Cons by (simp del: sum_list_eq_0_iff)
  qed
qed

lemma dates_tested_pos: "\<exists>row \<in> set blocks_df. sum_list row \<noteq> 0 \<Longrightarrow> 0 < dates_tested blocks_df"
  unfolding dates_tested_def by (simp add: length_greater_0_conv filter_empty_conv del: sum_list_eq_0_iff)

lemma pass_rate_bounds:
  assumes "p \<le> n" and "0 < n"
  shows "0 \<le> float_mul (float_div p n) 100 \<and> float_mul (float_div p n) 100 \<le> 100"
proof -
  have q0: "(0::rat) \<le> of_nat p / of_nat n" by simp
  have q1: "(of_nat p :: rat) / of_nat n \<le> of_nat 1" using assms by simp
  have d0: "0 \<le> float_div p n" unfolding float_div_def using q0 by (rule fl_nonneg)
  have "float_div p n \<le> of_nat 1" unfolding float_div_def using q0 q1 by (rule fl_le_nat) simp
  then have d1: "float_div p n \<le> 1" by simp
  have m0: "0 \<le> float_div p n * 100" using d0 by simp
  have m1: "float_div p n * 100 \<le> of_nat 100" using d1 by simp
  have "0 \<le> float_mul (float_div p n) 100" unfolding float_mul_def using m0 by (rule fl_nonneg)
  moreover have "float_mul (float_div p n) 100 \<le> of_nat 100"
    unfolding float_mul_def using m0 m1 by (rule fl_le_nat) simp
  ultimately show ?thesis by simp
qed

text \<open>
  Claim C6, as amended.  With one coefficient per date and at least one date of nonzero
  total, \<open>binom_p\<close> returns the double \<open>(passes / tested) * 100\<close>, the quotient and the
  product each rounded to the nearest double, where \<open>tested\<close> counts the dates of nonzero
  total and \<open>passes\<close> those among them whose \<open>greater\<close> p-value is strictly below \<open>alpha\<close>;
  dates of zero total count in neither, and the result lies in \<open>[0, 100]\<close>.
\<close>

theorem binom_p_pass_rate:
  assumes "length blocks_df \<le> length nc_df" and "\<exists>row \<in> set blocks_df. sum_list row \<noteq> 0"
  shows "binom_p bt alpha blocks_df nc_df =
           Inr (float_mul (float_div (dates_passed bt alpha blocks_df nc_df) (dates_tested blocks_df)) 100) \<and>
         0 \<le> float_mul (float_div (dates_passed bt alpha blocks_df nc_df) (dates_tested blocks_df)) 100 \<and>
         float_mul (float_div (dates_passed bt alpha blocks_df nc_df) (dates_tested blocks_df)) 100 \<le> 100"
proof -
  have pos: "0 < dates_tested blocks_df" using assms(2) by (rule dates_tested_pos)
  have "binom_p bt alpha blocks_df nc_df =
           Inr (float_mul (float_div (dates_passed bt alpha blocks_df nc_df) (dates_tested blocks_df)) 100)"
    unfolding binom_p_def binom_p_loop_counts [OF assms(1)] using pos by simp
  with pass_rate_bounds [OF dates_passed_le_tested pos] show ?thesis by simp
qed

lemma pass_rate_example:
  "binom_p binomtest_pvalue alpha_default [[5], [1], [0]] [1, 1, 0] = Inr 50"
  by code_simp

theorem binom_p_pass_rate_witness:
  "length [[5], [1], [0 :: nat]] \<le> length [1, 1, 0 :: int] \<and>
   (\<exists>row \<in> set [[5], [1], [0 :: nat]]. sum_list row \<noteq> 0) \<and>
   binom_p binomtest_pvalue alpha_default [[5], [1], [0]] [1, 1, 0] = Inr 50 \<and>
   float_mul (float_div (dates_passed binomtest_pvalue alpha_default [[5], [1], [0]] [1, 1, 0])
      (dates_tested [[5], [1], [0]])) 100 = 50"
  using binom_p_pass_rate [of "[[5], [1], [0]]" "[1, 1, 0]" binomtest_pvalue alpha_default]
    pass_rate_example
  by simp

text \<open>
  The value is not always the exact \<open>100 \<times> passes / tested\<close>: with 11 passes among 20
  tested dates the exact rate is 55, and the two roundings give
  \<open>55.00000000000001 = 55 + 2\<^sup>-\<^sup>4\<^sup>7\<close>.  The table has 11 dates with one entity of 5 blocks
  (p-value \<open>1/32\<close>) and 9 dates with one entity of 1 block (p-value \<open>1/2\<close>); every
  coefficient is 1.
\<close>

theorem pass_rate_is_rounded:
  "binom_p binomtest_pvalue alpha_default (replicate 11 [5] @ replicate 9 [1]) (replicate 20 1)
     = Inr (55 + 1 / 2 ^ 47) \<and>
   100 * of_nat (dates_passed binomtest_pvalue alpha_default
                   (replicate 11 [5] @ replicate 9 [1]) (replicate 20 1))
     / of_nat (dates_tested (replicate 11 [5] @ replicate 9 [1])) = (55 :: rat)"
  by code_simp

text \<open>
  When no date has a nonzero total, \<open>total\<close> is still 0 after the loop and the division
  \<open>passes / total\<close> raises.
\<close>

lemma binom_p_loop_all_zero:
  "\<forall>row \<in> set blocks_df. sum_list row = 0 \<Longrightarrow>
   binom_p_loop bt alpha blocks_df nc_df passes total' = Inr (passes, total')"
  by (induction blocks_df arbitrary: nc_df) (simp_all del: sum_list_eq_0_iff)

lemma binom_p_all_zero:
  "\<forall>row \<in> set blocks_df. sum_list row = 0 \<Longrightarrow> binom_p bt alpha blocks_df nc_df = Inl ZeroDivisionError"
  by (simp add: binom_p_def binom_p_loop_all_zero del: sum_list_eq_0_iff)

text \<open>
  Claim C7.  The claim asks for an explicit "undefined" result on a table whose dates all
  have total 0.  On the table of two dates and two entities with no block at all the
  evaluator raises \<open>ZeroDivisionError\<close>.
\<close>

theorem pass_rate_of_all_zero_table:
  "binom_p binomtest_pvalue alpha_default [[0, 0], [0, 0]] (compute_nakamoto_coefficients [[0, 0], [0, 0]])
     = Inl ZeroDivisionError"
  by code_simp

section \<open>Properties of the aggregator\<close>

lemma update_fresh: "k \<notin> fst ` set al \<Longrightarrow> AList.update k v al = al @ [(k, v)]"
  by (induction al) auto

lemma fold_update_distinct:
  "distinct (map fst (acc @ kvs)) \<Longrightarrow>
   fold (\<lambda>(k, v) daily. AList.update k v daily) kvs acc = acc @ kvs"
proof (induction kvs arbitrary: acc)
  case Nil
  show ?case by simp
next
  case (Cons kv kvs)
  obtain k v where kv: "kv = (k, v)" by (cases kv)
  from Cons.prems kv have fresh: "k \<notin> fst ` set acc" by auto
  from Cons.prems kv have "distinct (map fst ((acc @ [(k, v)]) @ kvs))" by simp
  then have "fold (\<lambda>(k, v) daily. AList.update k v daily) kvs (acc @ [(k, v)]) = (acc @ [(k, v)]) @ kvs"
    by (rule Cons.IH)
  then show ?case by (simp add: kv update_fresh [OF fresh])
qed

lemma sorted_items_id:
  assumes "length (data df) = length (index df)" and "sorted_wrt (<) (index df)"
  shows "sort_key fst (to_dict_list df) = zip (index df) (data df)"
proof -
  from assms(2) have d: "distinct (index df)" and s: "sorted (index df)"
    by (simp_all add: strict_sorted_iff)
  have m: "map fst (zip (index df) (data df)) = index df"
    using assms(1) by (simp add: map_fst_zip)
  have "to_dict_list df = zip (index df) (data df)"
    unfolding to_dict_list_def
    using fold_update_distinct [of "[]" "zip (index df) (data df)"] d m by simp
  then show ?thesis using s m by (simp add: sort_key_id_if_sorted)
qed

lemma take_drop_nth: "k + m \<le> length xs \<Longrightarrow> take m (drop k xs) = map (nth xs) [k..<k + m]"
proof -
  assume le: "k + m \<le> length xs"
  have "take m (drop k xs) = take m (drop k (map (nth xs) [0..<length xs]))"
    by (simp only: map_nth)
  also have "\<dots> = map (nth xs) (take m [k..<length xs])"
    by (simp add: drop_map take_map)
  also have "\<dots> = map (nth xs) [k..<k + m]"
    using le by simp
  finally show ?thesis .
qed

lemma filter_upt_interval:
  "filter (\<lambda>j. s \<le> int j \<and> int j < t) [0..<n] = [nat s..<min n (nat t)]"
proof (rule sorted_distinct_set_unique)
  show "sorted (filter (\<lambda>j. s \<le> int j \<and> int j < t) [0..<n])"
    by (rule sorted_filter [where f = "\<lambda>x. x", simplified]) simp
  show "distinct (filter (\<lambda>j. s \<le> int j \<and> int j < t) [0..<n])" by simp
  show "sorted [nat s..<min n (nat t)]" by simp
  show "distinct [nat s..<min n (nat t)]" by simp
  show "set (filter (\<lambda>j. s \<le> int j \<and> int j < t) [0..<n]) = set [nat s..<min n (nat t)]"
    by auto
qed

lemma py_slice_positions:
  assumes "i < length xs" and "1 \<le> num"
  shows "py_slice xs (int i - num div 2) (int i + (num - num div 2))
         = map (nth xs) (window_positions (length xs) num i)"
proof -
  define n where "n = int (length xs)"
  define start where "start = int i - num div 2"
  define stop where "stop = int i + (num - num div 2)"
  define lo where "lo = (if start < 0 then max 0 (start + n) else min start n)"
  define hi where "hi = min stop n"
  define s where "s = (if start < 0 then n + start else start)"
  have stop_pos: "0 < stop" using assms by (simp add: stop_def; linarith)
  have lo0: "0 \<le> lo" and lon: "lo \<le> n" using assms by (auto simp: lo_def n_def)
  have hi0: "0 \<le> hi" and hin: "hi \<le> n" using stop_pos by (auto simp: hi_def n_def)
  have sl: "py_slice xs start stop = take (nat (hi - lo)) (drop (nat lo) xs)"
    using stop_pos by (simp add: py_slice_def Let_def lo_def hi_def n_def)
  have wp: "window_positions (length xs) num i = [nat s..<min (length xs) (nat stop)]"
    unfolding window_positions_def Let_def
    by (simp add: filter_upt_interval s_def start_def stop_def n_def)
  have rng: "[nat s..<min (length xs) (nat stop)] = [nat lo..<nat hi]"
  proof (cases "lo \<le> hi")
    case True
    have "min (length xs) (nat stop) = nat hi" by (simp add: hi_def n_def; linarith)
    moreover have "[nat s..<nat hi] = [nat lo..<nat hi]"
    proof (cases "start < 0")
      case True
      then have "nat s = nat lo" by (auto simp: s_def lo_def max_def add.commute)
      then show ?thesis by simp
    next
      case False
      then show ?thesis using hin by (auto simp: s_def lo_def min_def)
    qed
    ultimately show ?thesis by simp
  next
    case False
    then have "nat hi \<le> nat lo" by simp
    moreover have "min (length xs) (nat stop) \<le> nat s"
      using False lo0 hi0 by (auto simp: s_def lo_def hi_def n_def min_def max_def split: if_splits)
    ultimately show ?thesis by simp
  qed
  have "take (nat (hi - lo)) (drop (nat lo) xs) = map (nth xs) [nat lo..<nat hi]"
  proof (cases "lo \<le> hi")
    case True
    then have "nat lo + nat (hi - lo) = nat hi" using lo0 by simp
    moreover have "nat hi \<le> length xs" using hin by (simp add: n_def)
    ultimately show ?thesis using take_drop_nth [of "nat lo" "nat (hi - lo)" xs] by simp
  next
    case False
    then show ?thesis by simp
  qed
  then show ?thesis
    using sl wp rng by (simp add: start_def stop_def)
qed

lemma window_positions_bound: "j \<in> set (window_positions n num i) \<Longrightarrow> j < n"
  by (simp add: window_positions_def Let_def)

lemma zip_star_uniform:
  assumes "rows \<noteq> []" and "\<forall>row \<in> set rows. length row = w"
  shows "zip_star rows = map (\<lambda>c. map (\<lambda>row. row ! c) rows) [0..<w]"
proof -
  from assms have "set (map length rows) = {w}" by (cases rows) auto
  then have "Min (set (map length rows)) = w" by simp
  with assms(1) show ?thesis by (simp add: zip_star_def)
qed

lemma combined_blocks_window:
  assumes "list_all (\<lambda>row. length row = w) rows" and "i < length rows" and "1 \<le> num"
  shows "combined_blocks rows num i =
           (if window_positions (length rows) num i = [] then []
            else window_sum rows w num i)"
proof -
  define pos where "pos = window_positions (length rows) num i"
  have sl: "py_slice rows (int i - num div 2) (int i + (num - num div 2)) = map (nth rows) pos"
    unfolding pos_def using assms(2,3) by (rule py_slice_positions)
  show ?thesis
  proof (cases "pos = []")
    case True
    then show ?thesis
      by (simp add: combined_blocks_def Let_def sl zip_star_def flip: pos_def)
  next
    case False
    have "\<forall>row \<in> set (map (nth rows) pos). length row = w"
      using assms(1) window_positions_bound [of _ "length rows" num i]
      by (auto simp: list_all_iff pos_def)
    with False have "zip_star (map (nth rows) pos)
        = map (\<lambda>c. map (\<lambda>row. row ! c) (map (nth rows) pos)) [0..<w]"
      by (intro zip_star_uniform) simp_all
    then have "combined_blocks rows num i = map (\<lambda>c. sum_list (map (\<lambda>j. rows ! j ! c) pos)) [0..<w]"
      by (simp add: combined_blocks_def Let_def sl comp_def)
    with False show ?thesis by (simp add: window_sum_def flip: pos_def)
  qed
qed

lemma last_window_nonempty:
  assumes "0 < n" and "1 \<le> num"
  shows "n - 1 \<in> set (window_positions n num (n - 1))"
proof -
  have "0 \<le> num div 2" using assms(2) by simp
  moreover have "num div 2 < num" using assms(2) by simp
  ultimately show ?thesis
    using assms(1) by (auto simp: window_positions_def Let_def)
qed

lemma length_window_sum: "length (window_sum rows w num i) = w"
  by (simp add: window_sum_def)

lemma granularity_loop_map:
  "granularity_loop lister num i result
     = result @ map (combined_blocks lister num) [i..<length lister]"
proof (induction lister num i result rule: granularity_loop.induct)
  case (1 lister num i result)
  show ?case
  proof (cases "int i \<le> int (length lister) - 1")
    case True
    then have i: "i < length lister" by simp
    have "granularity_loop lister num i result
        = granularity_loop lister num (i + 1) (result @ [combined_blocks lister num i])"
      using True by (subst granularity_loop.simps) simp
    also have "\<dots> = (result @ [combined_blocks lister num i])
        @ map (combined_blocks lister num) [i + 1..<length lister]"
      using True by (rule "1.IH")
    also have "\<dots> = result @ map (combined_blocks lister num) [i..<length lister]"
      using i by (simp add: upt_conv_Cons)
    finally show ?thesis .
  next
    case False
    then have "length lister \<le> i" by simp
    then show ?thesis using False by (subst granularity_loop.simps) simp
  qed
qed

lemma granularity_rows:
  assumes "wf_frame df" and "sorted_wrt (<) (index df)" and "1 \<le> num"
  shows "granularity df num =
     Inr \<lparr>index = index df, columns = columns df,
          data = map (aggregated_row (data df) (length (columns df)) num) [0..<length (data df)]\<rparr>"
proof -
  define rows where "rows = data df"
  define w where "w = length (columns df)"
  define n where "n = length rows"
  from assms(1) have len: "length (data df) = length (index df)"
    and uni: "list_all (\<lambda>row. length row = w) rows"
    by (simp_all add: wf_frame_def rows_def w_def)
  have items: "sort_key fst (to_dict_list df) = zip (index df) (data df)"
    using len assms(2) by (rule sorted_items_id)
  have lister: "map snd (zip (index df) (data df)) = rows"
    and dates: "map fst (zip (index df) (data df)) = index df"
    using len by (simp_all add: rows_def map_snd_zip map_fst_zip)
  define result where "result = map (combined_blocks rows num) [0..<n]"
  have tl: "length (to_dict_list df) = n"
    using arg_cong [OF items, where f = length] len by (simp add: n_def rows_def)
  have g: "granularity df num = DataFrame result (index df) (columns df)"
    by (simp add: granularity_def Let_def items lister dates result_def tl granularity_loop_map)
  have res: "result = map (\<lambda>i. if window_positions n num i = [] then [] else window_sum rows w num i) [0..<n]"
    unfolding result_def
    using combined_blocks_window [OF uni _ assms(3)] by (simp add: n_def)
  have pad: "map (\<lambda>row. map Some row @ replicate (w - length row) None) result
      = map (aggregated_row rows w num) [0..<n]"
    by (simp add: res aggregated_row_def length_window_sum n_def)
  show ?thesis
  proof (cases "n = 0")
    case True
    then show ?thesis
      using g by (simp add: DataFrame_def result_def rows_def n_def)
  next
    case False
    then have ne: "result \<noteq> []" by (simp add: result_def)
    have "window_positions n num (n - 1) \<noteq> []"
      using last_window_nonempty [of n num] False assms(3) by auto
    then have "result ! (n - 1) = window_sum rows w num (n - 1)"
      using False by (simp add: res)
    then have "length (result ! (n - 1)) = w" by (simp add: length_window_sum)
    moreover have "n - 1 < length result" using False by (simp add: result_def)
    ultimately have mem: "w \<in> set (map length result)"
      by (metis length_map nth_map nth_mem)
    have "\<forall>l \<in> set (map length result). l \<le> w"
      by (auto simp: res length_window_sum)
    with mem have "Max (set (map length result)) = w"
      by (intro Max_eqI) auto
    then have "DataFrame result (index df) (columns df)
       = Inr \<lparr>index = index df, columns = columns df,
              data = map (\<lambda>row. map Some row @ replicate (w - length row) None) result\<rparr>"
      using ne by (simp add: DataFrame_def w_def)
    then show ?thesis using g pad by (simp add: rows_def w_def n_def)
  qed
qed


text \<open>
  Claim C9.  With window size 1 the aggregator returns the table it was given: same dates,
  same columns, same cell values.
\<close>

theorem window_one_is_identity:
  assumes "wf_frame df" and "sorted_wrt (<) (index df)"
  shows "granularity df 1 =
           Inr \<lparr>index = index df, columns = columns df, data = map (map Some) (data df)\<rparr>"
proof -
  have pos: "window_positions (length (data df)) 1 i = [i]" if "i < length (data df)" for i
  proof -
    have "window_positions (length (data df)) 1 i =
        [nat (if int i - 1 div 2 < 0 then int (length (data df)) + (int i - 1 div 2) else int i - 1 div 2)
         ..<min (length (data df)) (nat (int i + (1 - 1 div 2)))]"
      unfolding window_positions_def Let_def by (rule filter_upt_interval)
    also have "\<dots> = [i..<Suc i]" using that by (simp add: nat_add_distrib)
    finally show ?thesis by simp
  qed
  have row: "aggregated_row (data df) (length (columns df)) 1 i = map Some (data df ! i)"
    if "i < length (data df)" for i
  proof -
    from assms(1) that have "length (data df ! i) = length (columns df)"
      by (simp add: wf_frame_def list_all_length)
    then have "map (\<lambda>c. data df ! i ! c) [0..<length (columns df)] = data df ! i"
      by (metis map_nth)
    then show ?thesis
      using that by (simp add: aggregated_row_def window_sum_def pos)
  qed
  have "map (aggregated_row (data df) (length (columns df)) 1) [0..<length (data df)]
      = map (map Some) (data df)"
    by (rule nth_equalityI) (simp_all add: row)
  with granularity_rows [OF assms, of 1] show ?thesis by simp
qed



theorem window_one_is_identity_witness:
  "wf_frame \<lparr>index = [1, 2, 3 :: nat], columns = [''a'', ''b''], data = [[1, 0], [0, 0], [2, 5 :: nat]]\<rparr> \<and>
   sorted_wrt (<) [1, 2, 3 :: nat] \<and>
   granularity \<lparr>index = [1, 2, 3 :: nat], columns = [''a'', ''b''], data = [[1, 0], [0, 0], [2, 5]]\<rparr> 1
     = Inr \<lparr>index = [1, 2, 3], columns = [''a'', ''b''],
            data = [[Some 1, Some 0], [Some 0, Some 0], [Some 2, Some 5]]\<rparr>"
proof -
  let ?df = "\<lparr>index = [1, 2, 3 :: nat], columns = [''a'', ''b''], data = [[1, 0], [0, 0], [2, 5 :: nat]]\<rparr>"
  have wf: "wf_frame ?df" by (simp add: wf_frame_def)
  have srt: "sorted_wrt (<) (index ?df)" by simp
  from window_one_is_identity [OF wf srt] wf show ?thesis by simp
qed

end
